theory Spec2Isabelle
  imports Main "HOL-Library.Word" "HOL-Library.Multiset"
begin

section \<open>The worker pool of multiprocessing.py\<close>

text \<open>
  The pool is a manager process and the worker processes it starts, sharing a queue and a
  counter. The model is a small-step interleaving semantics: each process has a program
  counter naming the source line it is about to execute, and one step of the model runs one
  process up to its next access to the shared queue, counter or lock. A schedule is a list of
  events naming the process that moves; a step that the process cannot take (it is blocked, or
  it does not exist) gives \<open>None\<close>.

  A value taken from the queue is \<open>None\<close> (the sentinel) or some job.
\<close>

type_synonym 'j item = "'j option"

text \<open>
  What one invocation of \<open>process_job\<close> does: it returns, it raises an exception that is
  an \<open>Exception\<close>, or it raises one that is not (a \<open>BaseException\<close> such as
  \<open>KeyboardInterrupt\<close> or \<open>SystemExit\<close>), which \<open>except Exception\<close> does not catch.
\<close>

datatype outcome = Returns | Raises_Exception | Raises_BaseException

text \<open>\<open>self.engine\<close> of a worker: \<open>None\<close> after \<open>__init__\<close>, then acquired, then disposed.\<close>

datatype engine = No_engine | Engine_open | Engine_disposed

text \<open>
  Program points of \<open>BaseWorker.run\<close> (line numbers of src/smhi/multiprocessing.py):
  \<^item> \<open>W_start\<close>: line 30, before \<open>self.engine = get_engine()\<close>;
  \<^item> \<open>W_get\<close>: line 32, before \<open>job = self.job_queue.get()\<close>;
  \<^item> \<open>W_task_done\<close>: line 34, \<open>job is None\<close>, before \<open>task_done()\<close>;
  \<^item> \<open>W_dispose\<close>: line 35, before \<open>self.engine.dispose()\<close> and \<open>break\<close>;
  \<^item> \<open>W_process job\<close>: line 38, before \<open>self.process_job(job)\<close>;
  \<^item> \<open>W_lock job\<close>: line 39, before entering \<open>with self.progress_counter.get_lock()\<close>;
  \<^item> \<open>W_read job\<close>: line 40, holding the lock, before reading \<open>value\<close>;
  \<^item> \<open>W_write job v\<close>: line 40, having read \<open>v\<close>, before storing \<open>v + 1\<close>;
  \<^item> \<open>W_unlock job\<close>: leaving the \<open>with\<close> block;
  \<^item> \<open>W_except job\<close>: lines 42-43, in the handler of \<open>except Exception\<close>;
  \<^item> \<open>W_exited\<close>: \<open>run\<close> has returned, the process has ended;
  \<^item> \<open>W_died\<close>: an exception left \<open>run\<close>, the process has ended;
  \<^item> \<open>W_aborted job\<close>: the exception that \<open>process_job(job)\<close> raised at line 38 was not an
    \<open>Exception\<close> and left \<open>run\<close>; the process has ended, and \<open>job\<close> was neither counted nor
    put back.
\<close>

datatype 'j wkr_pc =
    W_start
  | W_get
  | W_task_done
  | W_dispose
  | W_process "'j item"
  | W_lock "'j item"
  | W_read "'j item"
  | W_write "'j item" "32 word"
  | W_unlock "'j item"
  | W_except "'j item"
  | W_exited
  | W_died
  | W_aborted "'j item"

text \<open>
  A worker process. \<open>pulled\<close> records, for the proofs only, every value the worker has taken
  from the queue, oldest first; no step reads it.
\<close>

record 'j worker =
  pc :: "'j wkr_pc"
  engine :: engine
  pulled :: "'j item list"

text \<open>
  Program points of \<open>BaseManager.run\<close>:
  \<^item> \<open>M_create\<close>: line 88, before \<open>self.create_jobs()\<close>;
  \<^item> \<open>M_check\<close>: line 90, before the test \<open>self.total_jobs == 0\<close>;
  \<^item> \<open>M_start i\<close>: line 70, the loop of \<open>start_workers\<close> after \<open>i\<close> iterations;
  \<^item> \<open>M_poll\<close>: line 99, before the test of the polling loop;
  \<^item> \<open>M_stop i\<close>: line 79, the first loop of \<open>stop_workers\<close> after \<open>i\<close> iterations;
  \<^item> \<open>M_join i\<close>: line 81, before \<open>join\<close> of \<open>self.workers[i]\<close>;
  \<^item> \<open>M_returned\<close>: \<open>run\<close> has returned.
\<close>

datatype mgr_pc = M_create | M_check | M_start nat | M_poll | M_stop nat | M_join nat | M_returned

text \<open>The two messages the pool prints.\<close>

datatype 'j message = No_jobs | Error_processing "'j item"

text \<open>
  The state of a pool. The fields up to \<open>stdout\<close> are the attributes of the manager, the
  processes and the lock inside \<open>mp.Value\<close>; \<open>mp.Value('i', 0)\<close> is a C int, 32 bits and
  signed, and a store into it keeps the low 32 bits. The last three fields are logs kept for
  the proofs: every value ever put on the queue, every invocation of \<open>process_job\<close> (the job
  and what the invocation did), and, for every store into the counter, the worker that made it
  and the job it had finished. \<open>calls\<close> is also what tells one invocation of \<open>process_job\<close>
  on a job from the next.
\<close>

record 'j pool =
  mgr :: mgr_pc
  num_workers :: int
  total_jobs :: int
  job_queue :: "'j item list"
  workers :: "'j worker list"
  progress_counter :: "32 word"
  counter_lock :: "nat option"
  stdout :: "'j message list"
  put_log :: "'j item list"
  calls :: "('j item \<times> outcome) list"
  done_log :: "(nat \<times> 'j item) list"

text \<open>
  What the pool is run with: the behaviour of the subclass's \<open>process_job\<close>, as the outcome
  of its \<open>n\<close>-th invocation (counted from 0) on a job, and the values the subclass's
  \<open>create_jobs\<close> enqueues (in src/smhi/seed/station_data.py, the station ids the query returns).
\<close>

record 'j cfg =
  process_job :: "'j item \<Rightarrow> nat \<Rightarrow> outcome"
  ids :: "'j item list"

text \<open>\<open>BaseManager.__init__\<close> of src/smhi/multiprocessing.py.\<close>

definition BaseManager_init :: "int \<Rightarrow> 'j pool" where
  "BaseManager_init n =
     \<lparr>mgr = M_create, num_workers = n, total_jobs = 0, job_queue = [], workers = [],
      progress_counter = 0, counter_lock = None, stdout = [], put_log = [], calls = [],
      done_log = []\<rparr>"

text \<open>
  \<open>BaseManager.__init__\<close> of src/smhi/smhi/util/multiprocessing.py, given what
  \<open>os.cpu_count()\<close> returns and the argument \<open>num_workers\<close> (default \<open>-1\<close>): line 48 stores
  the defaulted value and line 52 stores the argument over it.
\<close>

definition BaseManager_init_util :: "int \<Rightarrow> int \<Rightarrow> 'j pool" where
  "BaseManager_init_util cpu_count n =
     (let s1 = (BaseManager_init 0 :: 'j pool)\<lparr>num_workers := (if n = - 1 then cpu_count else n)\<rparr>;
          s2 = s1\<lparr>num_workers := n\<rparr>
      in s2)"

text \<open>\<open>job_queue.put(x)\<close>: the queue is first in, first out.\<close>

definition put :: "'j item \<Rightarrow> 'j pool \<Rightarrow> 'j pool" where
  "put x s = s\<lparr>job_queue := job_queue s @ [x], put_log := put_log s @ [x]\<rparr>"

text \<open>
  \<open>create_jobs\<close> as \<open>WeatherDataManager\<close> overrides it: each id is put on the queue and
  \<open>total_jobs\<close> is incremented.
\<close>

definition create_job :: "'j item \<Rightarrow> 'j pool \<Rightarrow> 'j pool" where
  "create_job x s = (let s' = put x s in s'\<lparr>total_jobs := total_jobs s' + 1\<rparr>)"

definition create_jobs :: "'j item list \<Rightarrow> 'j pool \<Rightarrow> 'j pool" where
  "create_jobs xs s = fold create_job xs s"

text \<open>A worker as \<open>start_workers\<close> creates and starts it.\<close>

text \<open>How often \<open>process_job\<close> has been invoked on a job so far.\<close>

definition attempts :: "'j pool \<Rightarrow> 'j item \<Rightarrow> nat" where
  "attempts s job = count_list (map fst (calls s)) job"

definition new_worker :: "'j worker" where
  "new_worker = \<lparr>pc = W_start, engine = No_engine, pulled = []\<rparr>"

text \<open>The process of a worker has ended: \<open>join\<close> on it returns.\<close>

fun ended :: "'j wkr_pc \<Rightarrow> bool" where
  "ended W_exited = True"
| "ended W_died = True"
| "ended (W_aborted _) = True"
| "ended _ = False"

text \<open>
  One step of \<open>BaseManager.run\<close>. The progress bar only displays the counter and is left
  out. Reading \<open>progress_counter.value\<close> takes the lock of the \<open>mp.Value\<close> for the time of
  the read, so the test of the polling loop waits while a worker holds the lock; \<open>join\<close>
  blocks until the worker's process has ended.
\<close>

definition manager_step :: "'j cfg \<Rightarrow> 'j pool \<Rightarrow> 'j pool option" where
  "manager_step cfg s =
     (case mgr s of
        M_create \<Rightarrow> Some ((create_jobs (ids cfg) s)\<lparr>mgr := M_check\<rparr>)
      | M_check \<Rightarrow>
          if total_jobs s = 0
          then Some (s\<lparr>stdout := stdout s @ [No_jobs], mgr := M_returned\<rparr>)
          else Some (s\<lparr>mgr := M_start 0\<rparr>)
      | M_start i \<Rightarrow>
          if int i < num_workers s
          then Some (s\<lparr>workers := workers s @ [new_worker], mgr := M_start (Suc i)\<rparr>)
          else Some (s\<lparr>mgr := M_poll\<rparr>)
      | M_poll \<Rightarrow>
          (case counter_lock s of
             Some _ \<Rightarrow> None
           | None \<Rightarrow>
               if sint (progress_counter s) < total_jobs s
               then Some s
               else Some (s\<lparr>mgr := M_stop 0\<rparr>))
      | M_stop i \<Rightarrow>
          if int i < num_workers s
          then Some ((put None s)\<lparr>mgr := M_stop (Suc i)\<rparr>)
          else Some (s\<lparr>mgr := M_join 0\<rparr>)
      | M_join i \<Rightarrow>
          if i < length (workers s)
          then (if ended (pc (workers s ! i)) then Some (s\<lparr>mgr := M_join (Suc i)\<rparr>) else None)
          else Some (s\<lparr>mgr := M_returned\<rparr>)
      | M_returned \<Rightarrow> None)"

text \<open>Worker \<open>i\<close> moves to program point \<open>p\<close>.\<close>

definition goto :: "nat \<Rightarrow> 'j wkr_pc \<Rightarrow> 'j pool \<Rightarrow> 'j pool" where
  "goto i p s = s\<lparr>workers := (workers s)[i := (workers s ! i)\<lparr>pc := p\<rparr>]\<rparr>"

text \<open>
  One step of \<open>BaseWorker.run\<close> in worker \<open>i\<close>. \<open>get\<close> blocks on an empty queue and entering
  the \<open>with\<close> block blocks while another process holds the lock. \<open>task_done\<close> only
  acknowledges the value to the queue.
\<close>

definition worker_step :: "'j cfg \<Rightarrow> nat \<Rightarrow> 'j pool \<Rightarrow> 'j pool option" where
  "worker_step cfg i s =
     (if length (workers s) \<le> i then None
      else let w = workers s ! i in
        case pc w of
          W_start \<Rightarrow>
            Some (s\<lparr>workers := (workers s)[i := w\<lparr>pc := W_get, engine := Engine_open\<rparr>]\<rparr>)
        | W_get \<Rightarrow>
            (case job_queue s of
               [] \<Rightarrow> None
             | job # q \<Rightarrow>
                 Some (s\<lparr>job_queue := q,
                         workers := (workers s)[i := w\<lparr>
                           pc := (if job = None then W_task_done else W_process job),
                           pulled := pulled w @ [job]\<rparr>]\<rparr>))
        | W_task_done \<Rightarrow> Some (goto i W_dispose s)
        | W_dispose \<Rightarrow>
            Some (s\<lparr>workers := (workers s)[i := w\<lparr>pc := W_exited, engine := Engine_disposed\<rparr>]\<rparr>)
        | W_process job \<Rightarrow>
            (case process_job cfg job (attempts s job) of
               Returns \<Rightarrow> Some (goto i (W_lock job) (s\<lparr>calls := calls s @ [(job, Returns)]\<rparr>))
             | Raises_Exception \<Rightarrow>
                 Some (goto i (W_except job) (s\<lparr>calls := calls s @ [(job, Raises_Exception)]\<rparr>))
             | Raises_BaseException \<Rightarrow>
                 Some (goto i (W_aborted job) (s\<lparr>calls := calls s @ [(job, Raises_BaseException)]\<rparr>)))
        | W_lock job \<Rightarrow>
            (case counter_lock s of
               None \<Rightarrow> Some (goto i (W_read job) (s\<lparr>counter_lock := Some i\<rparr>))
             | Some _ \<Rightarrow> None)
        | W_read job \<Rightarrow> Some (goto i (W_write job (progress_counter s)) s)
        | W_write job v \<Rightarrow>
            Some (goto i (W_unlock job)
                    (s\<lparr>progress_counter := v + 1, done_log := done_log s @ [(i, job)]\<rparr>))
        | W_unlock job \<Rightarrow> Some (goto i W_get (s\<lparr>counter_lock := None\<rparr>))
        | W_except job \<Rightarrow>
            Some (goto i W_get (put job (s\<lparr>stdout := stdout s @ [Error_processing job]\<rparr>)))
        | W_exited \<Rightarrow> None
        | W_died \<Rightarrow> None
        | W_aborted job \<Rightarrow> None)"

text \<open>
  \<open>job_queue.get()\<close> raises in worker \<open>i\<close> (the queue is a proxy of a manager process, and a
  call through it fails when the connection does). Nothing in \<open>run\<close> catches it.
\<close>

definition get_fails :: "nat \<Rightarrow> 'j pool \<Rightarrow> 'j pool option" where
  "get_fails i s =
     (if length (workers s) \<le> i then None
      else case pc (workers s ! i) of
             W_get \<Rightarrow> Some (goto i W_died s)
           | _ \<Rightarrow> None)"

text \<open>An event names the process that moves, or the failure that happens.\<close>

datatype event = Manager | Worker nat | Get_fails nat

fun step :: "'j cfg \<Rightarrow> event \<Rightarrow> 'j pool \<Rightarrow> 'j pool option" where
  "step cfg Manager s = manager_step cfg s"
| "step cfg (Worker i) s = worker_step cfg i s"
| "step cfg (Get_fails i) s = get_fails i s"

fun exec :: "'j cfg \<Rightarrow> event list \<Rightarrow> 'j pool \<Rightarrow> 'j pool option" where
  "exec cfg [] s = Some s"
| "exec cfg (e # es) s = (case step cfg e s of None \<Rightarrow> None | Some s' \<Rightarrow> exec cfg es s')"


section \<open>Basic facts\<close>

lemma create_jobs_closed:
  "create_jobs xs s =
     s\<lparr>job_queue := job_queue s @ xs, put_log := put_log s @ xs,
       total_jobs := total_jobs s + int (length xs)\<rparr>"
  unfolding create_jobs_def
  by (induction xs arbitrary: s) (simp_all add: create_job_def put_def Let_def)

lemma exec_invariant:
  assumes "\<And>e s s'. e \<in> set es \<Longrightarrow> I s \<Longrightarrow> step cfg e s = Some s' \<Longrightarrow> I s'"
    and "I s0" and "exec cfg es s0 = Some s"
  shows "I s"
  using assms
proof (induction es arbitrary: s0)
  case Nil
  then show ?case by simp
next
  case (Cons e es)
  from Cons.prems(3) obtain s1 where s1: "step cfg e s0 = Some s1" and r: "exec cfg es s1 = Some s"
    by (auto split: option.splits)
  have i1: "I s1" using Cons.prems(1)[of e s0 s1] Cons.prems(2) s1 by simp
  show ?case
    by (rule Cons.IH[OF _ i1 r]) (use Cons.prems(1) in auto)
qed




lemma sum_list_map_update:
  fixes f :: "'a \<Rightarrow> 'b::cancel_comm_monoid_add"
  shows "i < length ws \<Longrightarrow>
    sum_list (map f (ws[i := w])) + f (ws ! i) = sum_list (map f ws) + f w"
proof (induction ws arbitrary: i)
  case Nil
  then show ?case by simp
next
  case (Cons a ws)
  then show ?case by (cases i) (simp_all add: ac_simps)
qed

subsection \<open>The steps, case by case\<close>

lemma worker_step_cases [consumes 1, case_names start get task_done dispose returns raises aborts lock load store unlock except]:
  assumes "worker_step cfg i s = Some s'"
  obtains
    (start) "i < length (workers s)" "pc (workers s ! i) = W_start"
      "s' = s\<lparr>workers := (workers s)[i := (workers s ! i)\<lparr>pc := W_get, engine := Engine_open\<rparr>]\<rparr>"
  | (get) job q where "i < length (workers s)" "pc (workers s ! i) = W_get" "job_queue s = job # q"
      "s' = s\<lparr>job_queue := q, workers := (workers s)[i := (workers s ! i)\<lparr>
                 pc := (if job = None then W_task_done else W_process job),
                 pulled := pulled (workers s ! i) @ [job]\<rparr>]\<rparr>"
  | (task_done) "i < length (workers s)" "pc (workers s ! i) = W_task_done"
      "s' = s\<lparr>workers := (workers s)[i := (workers s ! i)\<lparr>pc := W_dispose\<rparr>]\<rparr>"
  | (dispose) "i < length (workers s)" "pc (workers s ! i) = W_dispose"
      "s' = s\<lparr>workers := (workers s)[i := (workers s ! i)\<lparr>pc := W_exited, engine := Engine_disposed\<rparr>]\<rparr>"
  | (returns) job where "i < length (workers s)" "pc (workers s ! i) = W_process job"
      "process_job cfg job (attempts s job) = Returns"
      "s' = s\<lparr>calls := calls s @ [(job, Returns)], workers := (workers s)[i := (workers s ! i)\<lparr>pc := W_lock job\<rparr>]\<rparr>"
  | (raises) job where "i < length (workers s)" "pc (workers s ! i) = W_process job"
      "process_job cfg job (attempts s job) = Raises_Exception"
      "s' = s\<lparr>calls := calls s @ [(job, Raises_Exception)], workers := (workers s)[i := (workers s ! i)\<lparr>pc := W_except job\<rparr>]\<rparr>"
  | (aborts) job where "i < length (workers s)" "pc (workers s ! i) = W_process job"
      "process_job cfg job (attempts s job) = Raises_BaseException"
      "s' = s\<lparr>calls := calls s @ [(job, Raises_BaseException)], workers := (workers s)[i := (workers s ! i)\<lparr>pc := W_aborted job\<rparr>]\<rparr>"
  | (lock) job where "i < length (workers s)" "pc (workers s ! i) = W_lock job" "counter_lock s = None"
      "s' = s\<lparr>counter_lock := Some i, workers := (workers s)[i := (workers s ! i)\<lparr>pc := W_read job\<rparr>]\<rparr>"
  | (load) job where "i < length (workers s)" "pc (workers s ! i) = W_read job"
      "s' = s\<lparr>workers := (workers s)[i := (workers s ! i)\<lparr>pc := W_write job (progress_counter s)\<rparr>]\<rparr>"
  | (store) job v where "i < length (workers s)" "pc (workers s ! i) = W_write job v"
      "s' = s\<lparr>progress_counter := v + 1, done_log := done_log s @ [(i, job)],
               workers := (workers s)[i := (workers s ! i)\<lparr>pc := W_unlock job\<rparr>]\<rparr>"
  | (unlock) job where "i < length (workers s)" "pc (workers s ! i) = W_unlock job"
      "s' = s\<lparr>counter_lock := None, workers := (workers s)[i := (workers s ! i)\<lparr>pc := W_get\<rparr>]\<rparr>"
  | (except) job where "i < length (workers s)" "pc (workers s ! i) = W_except job"
      "s' = s\<lparr>stdout := stdout s @ [Error_processing job], job_queue := job_queue s @ [job],
               put_log := put_log s @ [job],
               workers := (workers s)[i := (workers s ! i)\<lparr>pc := W_get\<rparr>]\<rparr>"
proof -
  from assms have len: "i < length (workers s)"
    by (auto simp: worker_step_def split: if_splits)
  show thesis
  proof (cases "pc (workers s ! i)")
    case W_start
    then show ?thesis using assms len start by (simp add: worker_step_def Let_def)
  next
    case W_get
    then show ?thesis using assms len get
      by (cases "job_queue s") (simp_all add: worker_step_def Let_def)
  next
    case W_task_done
    then show ?thesis using assms len task_done by (simp add: worker_step_def Let_def goto_def)
  next
    case W_dispose
    then show ?thesis using assms len dispose by (simp add: worker_step_def Let_def)
  next
    case (W_process job)
    then show ?thesis using assms len returns[of job] raises[of job] aborts[of job]
      by (cases "process_job cfg job (attempts s job)")
        (simp_all add: worker_step_def Let_def goto_def)
  next
    case (W_lock job)
    then show ?thesis using assms len lock[of job]
      by (cases "counter_lock s") (simp_all add: worker_step_def Let_def goto_def)
  next
    case (W_read job)
    then show ?thesis using assms len load[of job] by (simp add: worker_step_def Let_def goto_def)
  next
    case (W_write job v)
    then show ?thesis using assms len store[of job v] by (simp add: worker_step_def Let_def goto_def)
  next
    case (W_unlock job)
    then show ?thesis using assms len unlock[of job] by (simp add: worker_step_def Let_def goto_def)
  next
    case (W_except job)
    then show ?thesis using assms len except[of job]
      by (simp add: worker_step_def Let_def goto_def put_def)
  next
    case W_exited
    then show ?thesis using assms len by (simp add: worker_step_def Let_def)
  next
    case W_died
    then show ?thesis using assms len by (simp add: worker_step_def Let_def)
  next
    case (W_aborted job)
    then show ?thesis using assms len by (simp add: worker_step_def Let_def)
  qed
qed

lemma manager_step_cases [consumes 1, case_names create no_jobs jobs start started poll polled stop stopped join joined]:
  assumes "manager_step cfg s = Some s'"
  obtains
    (create) "mgr s = M_create"
      "s' = s\<lparr>job_queue := job_queue s @ ids cfg, put_log := put_log s @ ids cfg,
               total_jobs := total_jobs s + int (length (ids cfg)), mgr := M_check\<rparr>"
  | (no_jobs) "mgr s = M_check" "total_jobs s = 0"
      "s' = s\<lparr>stdout := stdout s @ [No_jobs], mgr := M_returned\<rparr>"
  | (jobs) "mgr s = M_check" "total_jobs s \<noteq> 0" "s' = s\<lparr>mgr := M_start 0\<rparr>"
  | (start) i where "mgr s = M_start i" "int i < num_workers s"
      "s' = s\<lparr>workers := workers s @ [new_worker], mgr := M_start (Suc i)\<rparr>"
  | (started) i where "mgr s = M_start i" "\<not> int i < num_workers s" "s' = s\<lparr>mgr := M_poll\<rparr>"
  | (poll) "mgr s = M_poll" "sint (progress_counter s) < total_jobs s" "s' = s"
      "counter_lock s = None"
  | (polled) "mgr s = M_poll" "\<not> sint (progress_counter s) < total_jobs s" "s' = s\<lparr>mgr := M_stop 0\<rparr>"
      "counter_lock s = None"
  | (stop) i where "mgr s = M_stop i" "int i < num_workers s"
      "s' = s\<lparr>job_queue := job_queue s @ [None], put_log := put_log s @ [None], mgr := M_stop (Suc i)\<rparr>"
  | (stopped) i where "mgr s = M_stop i" "\<not> int i < num_workers s" "s' = s\<lparr>mgr := M_join 0\<rparr>"
  | (join) i where "mgr s = M_join i" "i < length (workers s)" "ended (pc (workers s ! i))"
      "s' = s\<lparr>mgr := M_join (Suc i)\<rparr>"
  | (joined) i where "mgr s = M_join i" "\<not> i < length (workers s)" "s' = s\<lparr>mgr := M_returned\<rparr>"
proof (cases "mgr s")
  case M_create
  then show ?thesis using assms create by (simp add: manager_step_def create_jobs_closed)
next
  case M_check
  then show ?thesis using assms no_jobs jobs by (simp add: manager_step_def split: if_splits)
next
  case (M_start i)
  then show ?thesis using assms start[of i] started[of i]
    by (simp add: manager_step_def split: if_splits)
next
  case M_poll
  then show ?thesis using assms poll polled
    by (simp add: manager_step_def split: if_splits option.splits)
next
  case (M_stop i)
  then show ?thesis using assms stop[of i] stopped[of i]
    by (simp add: manager_step_def put_def split: if_splits)
next
  case (M_join i)
  then show ?thesis using assms join[of i] joined[of i]
    by (simp add: manager_step_def split: if_splits)
next
  case M_returned
  then show ?thesis using assms by (simp add: manager_step_def)
qed

lemma get_fails_cases [consumes 1, case_names fails]:
  assumes "get_fails i s = Some s'"
  obtains "i < length (workers s)" "pc (workers s ! i) = W_get"
    "s' = s\<lparr>workers := (workers s)[i := (workers s ! i)\<lparr>pc := W_died\<rparr>]\<rparr>"
  using assms
  by (auto simp: get_fails_def goto_def split: if_splits wkr_pc.splits)

section \<open>A run without jobs\<close>

text \<open>
  The states of a run in which \<open>create_jobs\<close> found nothing to enqueue: nothing was put on
  the queue, no worker exists, the counter is as \<open>__init__\<close> left it, and the manager is before
  \<open>create_jobs\<close>, before the test of \<open>total_jobs\<close>, or has returned after printing the notice.
\<close>

definition idle :: "'j pool \<Rightarrow> bool" where
  "idle s \<longleftrightarrow>
     workers s = [] \<and> put_log s = [] \<and> job_queue s = [] \<and> progress_counter s = 0 \<and>
     done_log s = [] \<and> calls s = [] \<and> total_jobs s = 0 \<and>
     (mgr s = M_create \<and> stdout s = [] \<or> mgr s = M_check \<and> stdout s = [] \<or>
      mgr s = M_returned \<and> stdout s = [No_jobs])"

lemma idle_step:
  assumes "ids cfg = []" and "idle s" and "step cfg e s = Some s'"
  shows "idle s'"
proof (cases e)
  case Manager
  then have "manager_step cfg s = Some s'" using assms(3) by simp
  then show ?thesis using assms(1,2)
    by (cases rule: manager_step_cases) (auto simp: idle_def)
next
  case (Worker i)
  then show ?thesis using assms(2,3) by (simp add: idle_def worker_step_def)
next
  case (Get_fails i)
  then show ?thesis using assms(2,3) by (simp add: idle_def get_fails_def)
qed

text \<open>
  Claim C4. If \<open>create_jobs\<close> enqueues no job, so that \<open>total_jobs\<close> is 0, then \<open>run\<close> returns
  after its second step, the test of \<open>total_jobs\<close>, having printed the notice; and in every state
  of every schedule no worker has been started, nothing (so no sentinel) has been put on the
  queue, and the progress counter is still 0 with no store made into it.
\<close>

theorem zero_jobs_short_circuit:
  assumes "ids cfg = []"
  shows "(\<exists>s. exec cfg [Manager, Manager] (BaseManager_init n) = Some s \<and> mgr s = M_returned) \<and>
         (\<forall>es s. exec cfg es (BaseManager_init n) = Some s \<longrightarrow>
            workers s = [] \<and> put_log s = [] \<and> progress_counter s = 0 \<and> done_log s = [] \<and>
            (mgr s = M_returned \<longrightarrow> stdout s = [No_jobs]))"
proof (intro conjI allI impI)
  show "\<exists>s. exec cfg [Manager, Manager] (BaseManager_init n) = Some s \<and> mgr s = M_returned"
    using assms by (simp add: manager_step_def create_jobs_closed BaseManager_init_def)
next
  fix es s
  assume run: "exec cfg es (BaseManager_init n) = Some s"
  have "idle (BaseManager_init n :: 'a pool)"
    by (simp add: idle_def BaseManager_init_def)
  then have "idle s"
    using exec_invariant[where I = idle, OF _ _ run] idle_step[OF assms] by blast
  then show "workers s = []" "put_log s = []" "progress_counter s = 0" "done_log s = []"
    "mgr s = M_returned \<Longrightarrow> stdout s = [No_jobs]"
    by (auto simp: idle_def)
qed

theorem zero_jobs_short_circuit_witness:
  "ids \<lparr>process_job = (\<lambda>(j::nat item) n. Returns), ids = []\<rparr> = [] \<and>
   exec \<lparr>process_job = (\<lambda>(j::nat item) n. Returns), ids = []\<rparr> [Manager, Manager] (BaseManager_init 4) =
     Some \<lparr>mgr = M_returned, num_workers = 4, total_jobs = 0, job_queue = [], workers = [],
      progress_counter = 0, counter_lock = None, stdout = [No_jobs], put_log = [], calls = [],
      done_log = []\<rparr>"
  using zero_jobs_short_circuit[of "\<lparr>process_job = (\<lambda>(j::nat item) n. Returns), ids = []\<rparr>" 4]
  by (simp add: manager_step_def create_jobs_closed BaseManager_init_def)

section \<open>The lock makes the increment atomic\<close>

fun critical :: "'j wkr_pc \<Rightarrow> bool" where
  "critical (W_read _) = True"
| "critical (W_write _ _) = True"
| "critical (W_unlock _) = True"
| "critical _ = False"

definition mutex :: "'j pool \<Rightarrow> bool" where
  "mutex s \<longleftrightarrow>
     (\<forall>i < length (workers s). critical (pc (workers s ! i)) \<longrightarrow> counter_lock s = Some i) \<and>
     (\<forall>i < length (workers s). \<forall>x v. pc (workers s ! i) = W_write x v \<longrightarrow> v = progress_counter s) \<and>
     progress_counter s = word_of_nat (length (done_log s))"


lemma mutex_holder:
  "mutex s \<Longrightarrow> i < length (workers s) \<Longrightarrow> critical (pc (workers s ! i)) \<Longrightarrow>
   counter_lock s = Some i"
  by (simp add: mutex_def)

lemma mutex_other:
  assumes "mutex s" "i < length (workers s)" "critical (pc (workers s ! i))"
    "k < length (workers s)" "k \<noteq> i"
  shows "\<not> critical (pc (workers s ! k))"
  using mutex_holder[OF assms(1,2,3)] mutex_holder[OF assms(1,4)] assms(5) by auto

lemma mutexI:
  assumes "\<And>k. k < length (workers s) \<Longrightarrow> critical (pc (workers s ! k)) \<Longrightarrow> counter_lock s = Some k"
    and "\<And>k x v. k < length (workers s) \<Longrightarrow> pc (workers s ! k) = W_write x v \<Longrightarrow> v = progress_counter s"
    and "progress_counter s = word_of_nat (length (done_log s))"
  shows "mutex s"
  using assms unfolding mutex_def by blast

lemma mutex_stored:
  "mutex s \<Longrightarrow> k < length (workers s) \<Longrightarrow> pc (workers s ! k) = W_write x v \<Longrightarrow>
   v = progress_counter s"
  unfolding mutex_def by blast

lemma mutex_counter: "mutex s \<Longrightarrow> progress_counter s = word_of_nat (length (done_log s))"
  unfolding mutex_def by blast

text \<open>
  A step of worker \<open>i\<close> keeps \<open>mutex\<close> when the other workers stay where they are, worker
  \<open>i\<close> holds the lock wherever it is in the critical section, and the lock and the counter
  change only while no other worker is in the critical section.
\<close>

lemma mutex_update:
  assumes M: "mutex s"
    and len: "length (workers s') = length (workers s)"
    and oth: "\<And>k. k < length (workers s) \<Longrightarrow> k \<noteq> i \<Longrightarrow> pc (workers s' ! k) = pc (workers s ! k)"
    and cnt: "progress_counter s' = word_of_nat (length (done_log s'))"
    and own: "critical (pc (workers s' ! i)) \<Longrightarrow> counter_lock s' = Some i"
    and ownw: "\<And>x v. pc (workers s' ! i) = W_write x v \<Longrightarrow> v = progress_counter s'"
    and lk: "\<And>k. k < length (workers s) \<Longrightarrow> k \<noteq> i \<Longrightarrow> critical (pc (workers s ! k)) \<Longrightarrow>
               counter_lock s' = counter_lock s \<and> progress_counter s' = progress_counter s"
  shows "mutex s'"
proof (rule mutexI)
  fix k
  assume k: "k < length (workers s')" and c: "critical (pc (workers s' ! k))"
  show "counter_lock s' = Some k"
  proof (cases "k = i")
    case True
    then show ?thesis using own c by simp
  next
    case False
    have c': "critical (pc (workers s ! k))" using oth[of k] k len False c by simp
    have "counter_lock s = Some k" using mutex_holder[OF M _ c'] k len by simp
    then show ?thesis using lk[of k] k len False c' by simp
  qed
next
  fix k x v
  assume k: "k < length (workers s')" and w: "pc (workers s' ! k) = W_write x v"
  show "v = progress_counter s'"
  proof (cases "k = i")
    case True
    then show ?thesis using ownw w by simp
  next
    case False
    have w': "pc (workers s ! k) = W_write x v" using oth[of k] k len False w by simp
    then have c': "critical (pc (workers s ! k))" by simp
    have "v = progress_counter s" using mutex_stored[OF M _ w'] k len by simp
    then show ?thesis using lk[of k] k len False c' by simp
  qed
next
  show "progress_counter s' = word_of_nat (length (done_log s'))" by (rule cnt)
qed

lemma mutex_manager:
  assumes "mutex s" and "manager_step cfg s = Some s'"
  shows "mutex s'"
  using assms(2,1)
  by (cases rule: manager_step_cases)
    (auto simp: mutex_def new_worker_def nth_append less_Suc_eq)

lemma mutex_worker:
  assumes M: "mutex s" and "worker_step cfg i s = Some s'"
  shows "mutex s'"
  using assms(2)
proof (cases rule: worker_step_cases)
  case start
  then show ?thesis using mutex_counter[OF M]
    by (intro mutex_update[where i = i, OF M]) simp_all
next
  case (get job q)
  then show ?thesis using mutex_counter[OF M]
    by (intro mutex_update[where i = i, OF M]) (simp_all split: if_splits)
next
  case task_done
  then show ?thesis using mutex_counter[OF M]
    by (intro mutex_update[where i = i, OF M]) simp_all
next
  case dispose
  then show ?thesis using mutex_counter[OF M]
    by (intro mutex_update[where i = i, OF M]) simp_all
next
  case (returns job)
  then show ?thesis using mutex_counter[OF M]
    by (intro mutex_update[where i = i, OF M]) simp_all
next
  case (raises job)
  then show ?thesis using mutex_counter[OF M]
    by (intro mutex_update[where i = i, OF M]) simp_all
next
  case (aborts job)
  then show ?thesis using mutex_counter[OF M]
    by (intro mutex_update[where i = i, OF M]) simp_all
next
  case (lock job)
  have "\<And>k. k < length (workers s) \<Longrightarrow> \<not> critical (pc (workers s ! k))"
    using mutex_holder[OF M] lock(3) by fastforce
  then show ?thesis using lock mutex_counter[OF M]
    by (intro mutex_update[where i = i, OF M]) simp_all
next
  case (load job)
  have c: "critical (pc (workers s ! i))" using load by simp
  have h: "counter_lock s = Some i" using mutex_holder[OF M load(1) c] .
  show ?thesis using load h mutex_counter[OF M]
    by (intro mutex_update[where i = i, OF M]) simp_all
next
  case (store job v)
  have c: "critical (pc (workers s ! i))" using store by simp
  have h: "counter_lock s = Some i" using mutex_holder[OF M store(1) c] .
  have o: "\<And>k. k < length (workers s) \<Longrightarrow> k \<noteq> i \<Longrightarrow> \<not> critical (pc (workers s ! k))"
    using mutex_other[OF M store(1) c] by blast
  have v: "v = word_of_nat (length (done_log s))"
    using mutex_stored[OF M store(1,2)] mutex_counter[OF M] by simp
  show ?thesis using store h o v
    by (intro mutex_update[where i = i, OF M]) simp_all
next
  case (unlock job)
  have c: "critical (pc (workers s ! i))" using unlock by simp
  have o: "\<And>k. k < length (workers s) \<Longrightarrow> k \<noteq> i \<Longrightarrow> \<not> critical (pc (workers s ! k))"
    using mutex_other[OF M unlock(1) c] by blast
  show ?thesis using unlock o mutex_counter[OF M]
    by (intro mutex_update[where i = i, OF M]) simp_all
next
  case (except job)
  then show ?thesis using mutex_counter[OF M]
    by (intro mutex_update[where i = i, OF M]) simp_all
qed

lemma mutex_get_fails:
  assumes M: "mutex s" and "get_fails i s = Some s'"
  shows "mutex s'"
  using assms(2)
proof (cases rule: get_fails_cases)
  case fails
  then show ?thesis using mutex_counter[OF M]
    by (intro mutex_update[where i = i, OF M]) simp_all
qed

lemma mutex_step: "mutex s \<Longrightarrow> step cfg e s = Some s' \<Longrightarrow> mutex s'"
  by (cases e) (auto intro: mutex_manager mutex_worker mutex_get_fails)

section \<open>No job is lost or duplicated\<close>

text \<open>
  The job a worker has taken from the queue and not counted or put back: not yet, or never
  if the handler's exception ended the process.
\<close>

fun holds :: "'j wkr_pc \<Rightarrow> 'j item multiset" where
  "holds (W_process x) = {#x#}"
| "holds (W_lock x) = {#x#}"
| "holds (W_read x) = {#x#}"
| "holds (W_write x v) = {#x#}"
| "holds (W_except x) = {#x#}"
| "holds (W_aborted x) = {#x#}"
| "holds _ = {#}"

definition in_flight :: "'j pool \<Rightarrow> 'j item multiset" where
  "in_flight s = sum_list (map (\<lambda>w. holds (pc w)) (workers s))"

text \<open>The jobs among some queue items: everything but \<open>None\<close>.\<close>

definition jobs_of :: "'j item list \<Rightarrow> 'j item multiset" where
  "jobs_of xs = mset (filter (\<lambda>x. x \<noteq> None) xs)"

text \<open>The jobs a pool knows of: queued, held by a worker, or counted.\<close>

definition accounted :: "'j pool \<Rightarrow> 'j item multiset" where
  "accounted s = jobs_of (job_queue s) + in_flight s + mset (map snd (done_log s))"

definition conserved :: "'j cfg \<Rightarrow> 'j pool \<Rightarrow> bool" where
  "conserved cfg s \<longleftrightarrow>
     None \<notin># in_flight s \<and>
     (if mgr s = M_create
      then job_queue s = [] \<and> workers s = [] \<and> done_log s = [] \<and> total_jobs s = 0
      else total_jobs s = int (length (ids cfg)) \<and> accounted s = jobs_of (ids cfg))"

lemma jobs_of_simps [simp]:
  "jobs_of [] = {#}"
  "jobs_of (None # xs) = jobs_of xs"
  "jobs_of (Some j # xs) = add_mset (Some j) (jobs_of xs)"
  "jobs_of (xs @ ys) = jobs_of xs + jobs_of ys"
  by (simp_all add: jobs_of_def)

lemma in_flight_update:
  assumes "i < length (workers s)" and "workers s' = (workers s)[i := w']"
  shows "in_flight s' + holds (pc (workers s ! i)) = in_flight s + holds (pc w')"
  using sum_list_map_update[OF assms(1), of "\<lambda>w. holds (pc w)" w'] assms(2)
  by (simp add: in_flight_def)

lemma in_flight_append: "in_flight (s\<lparr>workers := workers s @ [w]\<rparr>) = in_flight s + holds (pc w)"
  by (simp add: in_flight_def)

lemma in_flight_cong: "workers s' = workers s \<Longrightarrow> in_flight s' = in_flight s"
  by (simp add: in_flight_def)

text \<open>
  A step of worker \<open>i\<close> keeps the account when what the worker gives up (\<open>h\<close>, with what it
  takes off the queue) equals what it then holds (\<open>h'\<close>, with what it puts on the queue and
  what it counts).
\<close>

lemma conserved_update:
  assumes C: "conserved cfg s"
    and i: "i < length (workers s)"
    and w: "workers s' = (workers s)[i := workers s' ! i]"
    and m: "mgr s' = mgr s" and t: "total_jobs s' = total_jobs s"
    and n: "None \<notin># holds (pc (workers s' ! i))"
    and b: "jobs_of (job_queue s') + holds (pc (workers s' ! i)) + mset (map snd (done_log s')) =
            jobs_of (job_queue s) + holds (pc (workers s ! i)) + mset (map snd (done_log s))"
  shows "conserved cfg s'"
proof -
  define h where "h = holds (pc (workers s ! i))"
  define h' where "h' = holds (pc (workers s' ! i))"
  have F: "in_flight s' + h = in_flight s + h'"
    unfolding h_def h'_def by (rule in_flight_update[OF i w])
  have nc: "mgr s \<noteq> M_create" using C i by (auto simp: conserved_def)
  have N: "None \<notin># in_flight s'"
  proof
    assume "None \<in># in_flight s'"
    then have "None \<in># in_flight s + h'" using F by (metis union_iff)
    then show False using C n by (auto simp: conserved_def h'_def)
  qed
  have b': "jobs_of (job_queue s') + h' + mset (map snd (done_log s')) =
            jobs_of (job_queue s) + h + mset (map snd (done_log s))"
    using b by (simp add: h_def h'_def)
  have "accounted s' + h =
        jobs_of (job_queue s') + mset (map snd (done_log s')) + (in_flight s' + h)"
    by (simp add: accounted_def)
  also have "\<dots> = (jobs_of (job_queue s') + h' + mset (map snd (done_log s'))) + in_flight s"
    unfolding F by (simp add: ac_simps)
  also have "\<dots> = (jobs_of (job_queue s) + h + mset (map snd (done_log s))) + in_flight s"
    unfolding b' ..
  also have "\<dots> = accounted s + h"
    by (simp add: accounted_def ac_simps)
  finally have "accounted s' = accounted s" by simp
  then show ?thesis using C N nc m t by (simp add: conserved_def)
qed

lemma conserved_init: "conserved cfg (BaseManager_init n)"
  by (simp add: conserved_def BaseManager_init_def in_flight_def)

lemma conserved_manager:
  assumes "conserved cfg s" and "manager_step cfg s = Some s'"
  shows "conserved cfg s'"
  using assms(2,1)
  by (cases rule: manager_step_cases)
    (auto simp: conserved_def accounted_def in_flight_def new_worker_def)

lemma conserved_worker:
  assumes C: "conserved cfg s" and "worker_step cfg i s = Some s'"
  shows "conserved cfg s'"
  using assms(2)
proof (cases rule: worker_step_cases)
  case (get job q)
  then show ?thesis
    by (intro conserved_update[where i = i, OF C]) (auto split: if_splits)
next
  case (except job)
  have "None \<notin># holds (pc (workers s ! i))"
    using C except(1) by (auto simp: conserved_def in_flight_def)
  then have "job \<noteq> None" using except(2) by auto
  then obtain j where "job = Some j" by auto
  then show ?thesis using except
    by (intro conserved_update[where i = i, OF C]) auto
next
  case (returns job)
  have "None \<notin># holds (pc (workers s ! i))"
    using C returns(1) by (auto simp: conserved_def in_flight_def)
  then show ?thesis using returns
    by (intro conserved_update[where i = i, OF C]) auto
next
  case (raises job)
  have "None \<notin># holds (pc (workers s ! i))"
    using C raises(1) by (auto simp: conserved_def in_flight_def)
  then show ?thesis using raises
    by (intro conserved_update[where i = i, OF C]) auto
next
  case (aborts job)
  have "None \<notin># holds (pc (workers s ! i))"
    using C aborts(1) by (auto simp: conserved_def in_flight_def)
  then show ?thesis using aborts
    by (intro conserved_update[where i = i, OF C]) auto
next
  case (lock job)
  have "None \<notin># holds (pc (workers s ! i))"
    using C lock(1) by (auto simp: conserved_def in_flight_def)
  then show ?thesis using lock
    by (intro conserved_update[where i = i, OF C]) auto
next
  case (load job)
  have "None \<notin># holds (pc (workers s ! i))"
    using C load(1) by (auto simp: conserved_def in_flight_def)
  then show ?thesis using load
    by (intro conserved_update[where i = i, OF C]) auto
qed (intro conserved_update[where i = i, OF C]; simp)+

lemma conserved_get_fails:
  assumes C: "conserved cfg s" and "get_fails i s = Some s'"
  shows "conserved cfg s'"
  using assms(2)
proof (cases rule: get_fails_cases)
  case fails
  then show ?thesis
    by (intro conserved_update[where i = i, OF C]) simp_all
qed

lemma conserved_step: "conserved cfg s \<Longrightarrow> step cfg e s = Some s' \<Longrightarrow> conserved cfg s'"
  by (cases e) (auto intro: conserved_manager conserved_worker conserved_get_fails)

section \<open>When the manager leaves the polling loop, every job has been counted\<close>


















text \<open>The workers the manager has joined have ended.\<close>

definition joined :: "'j pool \<Rightarrow> bool" where
  "joined s \<longleftrightarrow>
     (case mgr s of
        M_join i \<Rightarrow> \<forall>k < i. k < length (workers s) \<longrightarrow> ended (pc (workers s ! k))
      | M_returned \<Rightarrow> \<forall>k < length (workers s). ended (pc (workers s ! k))
      | _ \<Rightarrow> True)"






section \<open>Completion\<close>








text \<open>
  Two jobs, two workers, a handler that never raises, and a schedule in which the workers take
  one job each, the manager polls while they work, and \<open>run\<close> returns.
\<close>

definition two_jobs :: "nat cfg" where
  "two_jobs = \<lparr>process_job = (\<lambda>j n. Returns), ids = [Some 1, Some 2]\<rparr>"

definition two_workers_run :: "event list" where
  "two_workers_run =
     [Manager, Manager, Manager, Manager, Manager,
      Worker 0, Worker 1, Worker 0, Worker 1, Manager, Worker 0, Worker 1,
      Worker 0, Worker 0, Worker 0, Worker 0, Manager,
      Worker 1, Worker 1, Worker 1, Worker 1,
      Manager, Manager, Manager, Manager,
      Worker 1, Worker 0, Worker 1, Worker 0, Worker 1, Worker 0,
      Manager, Manager, Manager]"

lemma two_workers_run_returns:
  "\<exists>s. exec two_jobs two_workers_run (BaseManager_init 2) = Some s \<and> mgr s = M_returned \<and>
       length (workers s) = 2"
  by (simp add: two_jobs_def two_workers_run_def BaseManager_init_def manager_step_def
      worker_step_def create_jobs_closed put_def goto_def new_worker_def attempts_def Let_def)

section \<open>The engine of a worker\<close>

text \<open>What \<open>self.engine\<close> is at each program point, as the code assigns it.\<close>

fun engine_at :: "'j wkr_pc \<Rightarrow> engine" where
  "engine_at W_start = No_engine"
| "engine_at W_exited = Engine_disposed"
| "engine_at _ = Engine_open"

definition engines_ok :: "'j pool \<Rightarrow> bool" where
  "engines_ok s \<longleftrightarrow> (\<forall>k < length (workers s). engine (workers s ! k) = engine_at (pc (workers s ! k)))"

lemma engines_ok_update:
  assumes E: "engines_ok s"
    and len: "length (workers s') = length (workers s)"
    and oth: "\<And>k. k < length (workers s) \<Longrightarrow> k \<noteq> i \<Longrightarrow> workers s' ! k = workers s ! k"
    and own: "engine (workers s' ! i) = engine_at (pc (workers s' ! i))"
  shows "engines_ok s'"
  unfolding engines_ok_def
proof (intro allI impI)
  fix k assume k: "k < length (workers s')"
  show "engine (workers s' ! k) = engine_at (pc (workers s' ! k))"
  proof (cases "k = i")
    case True
    then show ?thesis using own by simp
  next
    case False
    then show ?thesis using oth[of k] k len E by (simp add: engines_ok_def)
  qed
qed

lemma engines_ok_step:
  assumes E: "engines_ok s" and st: "step cfg e s = Some s'"
  shows "engines_ok s'"
proof (cases e)
  case Manager
  then have "manager_step cfg s = Some s'" using st by simp
  then show ?thesis using E
    by (cases rule: manager_step_cases)
      (auto simp: engines_ok_def nth_append new_worker_def less_Suc_eq)
next
  case (Worker i)
  then have w: "worker_step cfg i s = Some s'" using st by simp
  have own: "engine (workers s ! i) = engine_at (pc (workers s ! i))"
    if "i < length (workers s)" using E that by (simp add: engines_ok_def)
  from w show ?thesis
    by (cases rule: worker_step_cases)
      (rule engines_ok_update[where i = i, OF E]; use own in \<open>simp split: if_splits\<close>)+
next
  case (Get_fails i)
  then have g: "get_fails i s = Some s'" using st by simp
  have own: "engine (workers s ! i) = engine_at (pc (workers s ! i))"
    if "i < length (workers s)" using E that by (simp add: engines_ok_def)
  from g show ?thesis
    by (cases rule: get_fails_cases)
      (rule engines_ok_update[where i = i, OF E]; use own in simp)
qed

lemma engines_ok_exec: "exec cfg es (BaseManager_init n) = Some s \<Longrightarrow> engines_ok s"
  using exec_invariant[where I = engines_ok and cfg = cfg and es = es] engines_ok_step
  by (metis (no_types, lifting) BaseManager_init_def engines_ok_def list.size(3) not_less_zero
      pool.select_convs(5))

text \<open>The definitions a concrete schedule is evaluated with.\<close>

lemmas run_simps =
  BaseManager_init_def manager_step_def worker_step_def get_fails_def create_jobs_closed
  put_def goto_def new_worker_def attempts_def Let_def

text \<open>
  Claim C6, as the code has it. In every state of every schedule, a worker that has not yet
  run has no engine, a worker whose \<open>run\<close> has returned (it took the branch of the sentinel,
  the only \<open>break\<close> of the loop) has disposed its engine, and at every other program point,
  also after an exception has ended the process, the engine is acquired and not disposed.
\<close>

theorem engine_released_on_sentinel_exit:
  assumes "exec cfg es (BaseManager_init n) = Some s" and "k < length (workers s)"
  shows "(pc (workers s ! k) = W_start \<longrightarrow> engine (workers s ! k) = No_engine) \<and>
         (pc (workers s ! k) = W_exited \<longrightarrow> engine (workers s ! k) = Engine_disposed) \<and>
         (pc (workers s ! k) \<noteq> W_start \<and> pc (workers s ! k) \<noteq> W_exited \<longrightarrow>
            engine (workers s ! k) = Engine_open)"
proof -
  have "engine (workers s ! k) = engine_at (pc (workers s ! k))"
    using engines_ok_exec[OF assms(1)] assms(2) by (simp add: engines_ok_def)
  then show ?thesis by (cases "pc (workers s ! k)") simp_all
qed

lemma two_workers_run_final:
  "exec two_jobs two_workers_run (BaseManager_init 2) =
     Some \<lparr>mgr = M_returned, num_workers = 2, total_jobs = 2, job_queue = [],
       workers =
         [\<lparr>pc = W_exited, engine = Engine_disposed, pulled = [Some 1, None]\<rparr>,
          \<lparr>pc = W_exited, engine = Engine_disposed, pulled = [Some 2, None]\<rparr>],
       progress_counter = 2, counter_lock = None, stdout = [],
       put_log = [Some 1, Some 2, None, None],
       calls = [(Some 1, Returns), (Some 2, Returns)],
       done_log = [(0, Some 1), (1, Some 2)]\<rparr>"
  by (simp add: two_jobs_def two_workers_run_def run_simps)

theorem engine_released_on_sentinel_exit_witness:
  "\<exists>s. exec two_jobs two_workers_run (BaseManager_init 2) = Some s \<and> length (workers s) = 2 \<and>
       pc (workers s ! 1) = W_exited \<and> engine (workers s ! 1) = Engine_disposed"
proof -
  obtain s where run: "exec two_jobs two_workers_run (BaseManager_init 2) = Some s"
    and l: "length (workers s) = 2" and p: "pc (workers s ! 1) = W_exited"
    using two_workers_run_final by simp
  have "engine (workers s ! 1) = Engine_disposed"
    using engine_released_on_sentinel_exit[OF run, of 1] l p by simp
  then show ?thesis using run l p by blast
qed

text \<open>
  One job and one worker: the worker acquires its engine, \<open>get\<close> raises, and the process ends
  with the engine never disposed.
\<close>

definition one_job :: "nat cfg" where
  "one_job = \<lparr>process_job = (\<lambda>j n. Returns), ids = [Some 1]\<rparr>"

theorem engine_leak_counterexample:
  "exec one_job [Manager, Manager, Manager, Manager, Worker 0, Get_fails 0] (BaseManager_init 1) =
     Some \<lparr>mgr = M_poll, num_workers = 1, total_jobs = 1, job_queue = [Some 1],
       workers = [\<lparr>pc = W_died, engine = Engine_open, pulled = []\<rparr>],
       progress_counter = 0, counter_lock = None, stdout = [],
       put_log = [Some 1], calls = [], done_log = []\<rparr>"
  by (simp add: one_job_def run_simps)

section \<open>A value \<open>None\<close> on the queue\<close>

lemma no_call_on_none_step:
  assumes C: "conserved cfg s" and N: "None \<notin> fst ` set (calls s)" and st: "step cfg e s = Some s'"
  shows "None \<notin> fst ` set (calls s')"
proof (cases e)
  case Manager
  then have "manager_step cfg s = Some s'" using st by simp
  then show ?thesis using N by (cases rule: manager_step_cases) simp_all
next
  case (Worker i)
  then have w: "worker_step cfg i s = Some s'" using st by simp
  have held: "None \<notin># holds (pc (workers s ! i))" if "i < length (workers s)"
    using C that by (auto simp: conserved_def in_flight_def)
  from w show ?thesis using N held
    by (cases rule: worker_step_cases) auto
next
  case (Get_fails i)
  then have "get_fails i s = Some s'" using st by simp
  then show ?thesis using N by (cases rule: get_fails_cases) simp_all
qed

lemma no_call_on_none:
  assumes "exec cfg es (BaseManager_init n) = Some s"
  shows "None \<notin> fst ` set (calls s)"
proof -
  have "conserved cfg s \<and> None \<notin> fst ` set (calls s)"
  proof (rule exec_invariant[where I = "\<lambda>s. conserved cfg s \<and> None \<notin> fst ` set (calls s)",
        OF _ _ assms])
    show "conserved cfg (BaseManager_init n) \<and> None \<notin> fst ` set (calls (BaseManager_init n :: 'a pool))"
      by (simp add: conserved_init) (simp add: BaseManager_init_def)
  next
    fix e s s'
    assume "conserved cfg s \<and> None \<notin> fst ` set (calls s)" and "step cfg e s = Some s'"
    then show "conserved cfg s' \<and> None \<notin> fst ` set (calls s')"
      using conserved_step no_call_on_none_step by blast
  qed
  then show ?thesis by simp
qed

text \<open>
  Claim C10. A worker about to call \<open>get\<close> while \<open>None\<close> heads the queue takes it and, in its
  next three steps, acknowledges it, disposes its engine and ends: nothing else in the pool
  changes, so \<open>process_job\<close> is not invoked and the counter stays. And in no state of any
  schedule has \<open>process_job\<close> been invoked on \<open>None\<close>, whoever put it on the queue.
\<close>

theorem none_ends_the_worker:
  "(\<forall>s i q. i < length (workers s) \<and> pc (workers s ! i) = W_get \<and> job_queue s = None # q \<longrightarrow>
      exec cfg [Worker i, Worker i, Worker i] s =
        Some (s\<lparr>job_queue := q,
                workers := (workers s)[i := (workers s ! i)\<lparr>
                  pc := W_exited, engine := Engine_disposed,
                  pulled := pulled (workers s ! i) @ [None]\<rparr>]\<rparr>)) \<and>
   (\<forall>n es s. exec cfg es (BaseManager_init n) = Some s \<longrightarrow> None \<notin> fst ` set (calls s))"
proof (intro conjI allI impI)
  fix s :: "'a pool" and i q
  assume "i < length (workers s) \<and> pc (workers s ! i) = W_get \<and> job_queue s = None # q"
  then show "exec cfg [Worker i, Worker i, Worker i] s =
        Some (s\<lparr>job_queue := q,
                workers := (workers s)[i := (workers s ! i)\<lparr>
                  pc := W_exited, engine := Engine_disposed,
                  pulled := pulled (workers s ! i) @ [None]\<rparr>]\<rparr>)"
    by (cases "workers s ! i") (simp add: worker_step_def goto_def Let_def)
next
  fix n es and s :: "'a pool"
  assume "exec cfg es (BaseManager_init n) = Some s"
  then show "None \<notin> fst ` set (calls s)" by (rule no_call_on_none)
qed

text \<open>
  A caller that enqueues \<open>None\<close> and a job, and one worker: the worker takes \<open>None\<close> and
  ends; the job stays on the queue and the handler is never invoked.
\<close>

definition none_job :: "nat cfg" where
  "none_job = \<lparr>process_job = (\<lambda>j n. Returns), ids = [None, Some 3]\<rparr>"

definition at_get :: "nat pool" where
  "at_get =
     \<lparr>mgr = M_poll, num_workers = 1, total_jobs = 2, job_queue = [None, Some 3],
      workers = [\<lparr>pc = W_get, engine = Engine_open, pulled = []\<rparr>],
      progress_counter = 0, counter_lock = None, stdout = [],
      put_log = [None, Some 3], calls = [], done_log = []\<rparr>"

theorem none_ends_the_worker_witness:
  "exec none_job [Manager, Manager, Manager, Manager, Worker 0] (BaseManager_init 1) = Some at_get \<and>
   exec none_job [Worker 0, Worker 0, Worker 0] at_get =
     Some \<lparr>mgr = M_poll, num_workers = 1, total_jobs = 2, job_queue = [Some 3],
       workers = [\<lparr>pc = W_exited, engine = Engine_disposed, pulled = [None]\<rparr>],
       progress_counter = 0, counter_lock = None, stdout = [],
       put_log = [None, Some 3], calls = [], done_log = []\<rparr> \<and>
   None \<notin> fst ` set (calls at_get)"
proof -
  have pre: "exec none_job [Manager, Manager, Manager, Manager, Worker 0] (BaseManager_init 1) =
    Some at_get"
    by (simp add: none_job_def at_get_def run_simps)
  have "0 < length (workers at_get) \<and> pc (workers at_get ! 0) = W_get \<and>
        job_queue at_get = None # [Some 3]"
    by (simp add: at_get_def)
  then have "exec none_job [Worker 0, Worker 0, Worker 0] at_get =
       Some (at_get\<lparr>job_queue := [Some 3],
                workers := (workers at_get)[0 := (workers at_get ! 0)\<lparr>
                  pc := W_exited, engine := Engine_disposed,
                  pulled := pulled (workers at_get ! 0) @ [None]\<rparr>]\<rparr>)"
    using none_ends_the_worker[of none_job] by blast
  moreover have "None \<notin> fst ` set (calls at_get)"
    using none_ends_the_worker[of none_job] pre by blast
  ultimately show ?thesis using pre by (simp add: at_get_def)
qed

section \<open>The default number of workers in util/multiprocessing.py\<close>

text \<open>
  The states of a run of the manager of src/smhi/smhi/util/multiprocessing.py constructed
  with the default \<open>num_workers\<close>: no worker, nothing on the queue but what \<open>create_jobs\<close>
  put there, and the manager not beyond the polling loop.
\<close>

definition unstaffed :: "'j cfg \<Rightarrow> 'j pool \<Rightarrow> bool" where
  "unstaffed cfg s \<longleftrightarrow>
     num_workers s = - 1 \<and> workers s = [] \<and> progress_counter s = 0 \<and> done_log s = [] \<and>
     counter_lock s = None \<and>
     (mgr s = M_create \<and> put_log s = [] \<and> total_jobs s = 0 \<or>
      (mgr s = M_check \<or> mgr s = M_start 0 \<or> mgr s = M_poll) \<and>
        put_log s = ids cfg \<and> total_jobs s = int (length (ids cfg)))"

lemma unstaffed_step:
  assumes "ids cfg \<noteq> []" and "unstaffed cfg s" and "step cfg e s = Some s'"
  shows "unstaffed cfg s'"
proof (cases e)
  case Manager
  then have "manager_step cfg s = Some s'" using assms(3) by simp
  then show ?thesis using assms(1,2)
    by (cases rule: manager_step_cases) (auto simp: unstaffed_def)
next
  case (Worker i)
  then show ?thesis using assms(2,3) by (simp add: unstaffed_def worker_step_def)
next
  case (Get_fails i)
  then show ?thesis using assms(2,3) by (simp add: unstaffed_def get_fails_def)
qed

text \<open>
  Claim C9. Constructed with \<open>num_workers = -1\<close>, the manager of util/multiprocessing.py keeps
  \<open>-1\<close> whatever \<open>os.cpu_count()\<close> returned. With at least one job, in every state of every
  schedule: \<open>num_workers\<close> is \<open>-1\<close>, no worker has been started, the queue has received
  nothing but the jobs (no sentinel), the counter is 0 and the manager has not left the
  polling loop, whose test sends it round again. The loops of \<open>start_workers\<close> and of
  \<open>stop_workers\<close> over \<open>range(-1)\<close> do not run their bodies.
\<close>

theorem default_num_workers_starts_no_worker:
  assumes "ids cfg \<noteq> []" and "exec cfg es (BaseManager_init_util cpu (- 1)) = Some s"
  shows "num_workers s = - 1 \<and> workers s = [] \<and> (put_log s = [] \<or> put_log s = ids cfg) \<and>
         progress_counter s = 0 \<and>
         (mgr s = M_create \<or> mgr s = M_check \<or> mgr s = M_start 0 \<or> mgr s = M_poll) \<and>
         (mgr s = M_poll \<longrightarrow> manager_step cfg s = Some s) \<and>
         manager_step cfg (s\<lparr>mgr := M_start 0\<rparr>) = Some (s\<lparr>mgr := M_poll\<rparr>) \<and>
         manager_step cfg (s\<lparr>mgr := M_stop 0\<rparr>) = Some (s\<lparr>mgr := M_join 0\<rparr>)"
proof -
  have "unstaffed cfg (BaseManager_init_util cpu (- 1) :: 'a pool)"
    by (simp add: unstaffed_def BaseManager_init_util_def BaseManager_init_def)
  then have U: "unstaffed cfg s"
    using exec_invariant[where I = "unstaffed cfg", OF _ _ assms(2)] unstaffed_step[OF assms(1)]
    by blast
  have "mgr s = M_poll \<longrightarrow> manager_step cfg s = Some s"
    using U assms(1) by (auto simp: unstaffed_def manager_step_def)
  moreover have "manager_step cfg (s\<lparr>mgr := M_start 0\<rparr>) = Some (s\<lparr>mgr := M_poll\<rparr>)"
    "manager_step cfg (s\<lparr>mgr := M_stop 0\<rparr>) = Some (s\<lparr>mgr := M_join 0\<rparr>)"
    using U by (simp_all add: unstaffed_def manager_step_def)
  ultimately show ?thesis using U by (auto simp: unstaffed_def)
qed

theorem default_num_workers_starts_no_worker_witness:
  "ids two_jobs \<noteq> [] \<and>
   exec two_jobs [Manager, Manager, Manager, Manager, Manager] (BaseManager_init_util 8 (- 1)) =
     Some \<lparr>mgr = M_poll, num_workers = - 1, total_jobs = 2, job_queue = [Some 1, Some 2],
       workers = [], progress_counter = 0, counter_lock = None, stdout = [],
       put_log = [Some 1, Some 2], calls = [], done_log = []\<rparr> \<and>
   num_workers (BaseManager_init_util 8 (- 1) :: nat pool) = - 1"
proof -
  have i: "ids two_jobs \<noteq> []" by (simp add: two_jobs_def)
  have "exec two_jobs [] (BaseManager_init_util 8 (- 1)) = Some (BaseManager_init_util 8 (- 1))"
    by simp
  from default_num_workers_starts_no_worker[OF i this]
  have "num_workers (BaseManager_init_util 8 (- 1) :: nat pool) = - 1" by simp
  then show ?thesis
    by (simp add: two_jobs_def BaseManager_init_util_def run_simps)
qed

section \<open>A handler that raises\<close>





section \<open>The run returns\<close>
























subsection \<open>What is left to do\<close>















subsection \<open>Some process can take a step\<close>













section \<open>Completion\<close>










section \<open>A handler that raises\<close>












section \<open>Shared memory\<close>

text \<open>
  \<open>serialize_to_shared_memory\<close> and \<open>deserialize_from_shared_memory\<close> work on named segments
  that live in the operating system and on the attachments the calling process holds to
  them (its \<open>SharedMemory\<close> objects that are not yet closed). \<open>pickle\<close> and \<open>SharedMemory\<close>
  are library code: \<open>pickle.dumps\<close> and \<open>pickle.loads\<close> are parameters of the two functions,
  and the three operations of \<open>SharedMemory\<close> the functions use are modelled as the library
  documents them.
\<close>

type_synonym byte = "8 word"

datatype shm_error = ValueError | FileExistsError | FileNotFoundError | UnpicklingError

record shm =
  segments :: "string \<rightharpoonup> byte list"
  attached :: "string multiset"

text \<open>
  The size of the block that the platform allocates for a requested size: the library
  documents that it may be larger than requested, as platforms allocate by their page size.
  \<open>granule\<close> is the unit of allocation; it is 1 where the block has the size requested, as
  on Linux.
\<close>

definition allocated :: "nat \<Rightarrow> nat \<Rightarrow> nat" where
  "allocated granule sz = ((sz + granule - 1) div granule) * granule"

text \<open>
  \<open>SharedMemory(create=True, size=size, name=name)\<close>. A size of zero is refused. A given
  name must be free. For \<open>name=None\<close> the library draws names until one is free; \<open>drawn\<close>
  are the names it draws, and the model stops with the last attempt's error when they are
  used up. The new segment is zero-filled and the caller is attached to it.
\<close>

definition SharedMemory_create ::
  "nat \<Rightarrow> string list \<Rightarrow> string option \<Rightarrow> nat \<Rightarrow> shm \<Rightarrow> shm_error + (string \<times> shm)" where
  "SharedMemory_create granule drawn name sz w =
     (if sz = 0 then Inl ValueError
      else case filter (\<lambda>c. segments w c = None)
                  (case name of Some nm \<Rightarrow> [nm] | None \<Rightarrow> drawn) of
             [] \<Rightarrow> Inl FileExistsError
           | nm # _ \<Rightarrow>
               Inr (nm, w\<lparr>segments := (segments w)(nm \<mapsto> replicate (allocated granule sz) 0),
                          attached := add_mset nm (attached w)\<rparr>))"

text \<open>\<open>SharedMemory(name=name)\<close>: attach to an existing segment.\<close>

definition SharedMemory_attach :: "string \<Rightarrow> shm \<Rightarrow> shm_error + shm" where
  "SharedMemory_attach nm w =
     (case segments w nm of
        None \<Rightarrow> Inl FileNotFoundError
      | Some _ \<Rightarrow> Inr (w\<lparr>attached := add_mset nm (attached w)\<rparr>))"

text \<open>\<open>shm.close()\<close>: give up one attachment; the segment stays.\<close>

definition SharedMemory_close :: "string \<Rightarrow> shm \<Rightarrow> shm" where
  "SharedMemory_close nm w = w\<lparr>attached := attached w - {#nm#}\<rparr>"

text \<open>\<open>shm.unlink()\<close>: destroy the segment, as its owner does.\<close>

definition SharedMemory_unlink :: "string \<Rightarrow> shm \<Rightarrow> shm" where
  "SharedMemory_unlink nm w = w\<lparr>segments := (segments w)(nm := None)\<rparr>"

text \<open>
  \<open>shm.buf[:len(data_bytes)] = data_bytes\<close>: the assignment to a slice of the buffer is
  refused when the slice is shorter than the bytes.
\<close>

definition write_prefix :: "string \<Rightarrow> byte list \<Rightarrow> shm \<Rightarrow> shm_error + shm" where
  "write_prefix nm bs w =
     (case segments w nm of
        None \<Rightarrow> Inl ValueError
      | Some old \<Rightarrow>
          if length old < length bs then Inl ValueError
          else Inr (w\<lparr>segments := (segments w)(nm \<mapsto> bs @ drop (length bs) old)\<rparr>))"

text \<open>
  \<open>serialize_to_shared_memory(data, shm_name)\<close>: the result is the pair of the
  \<open>SharedMemory\<close> object, which the model identifies with the name it is attached to, and
  \<open>shm.name\<close>.
\<close>

definition serialize_to_shared_memory ::
  "('a \<Rightarrow> byte list) \<Rightarrow> nat \<Rightarrow> string list \<Rightarrow> 'a \<Rightarrow> string option \<Rightarrow> shm \<Rightarrow>
   shm_error + ((string \<times> string) \<times> shm)" where
  "serialize_to_shared_memory dumps granule drawn data shm_name w =
     (let data_bytes = dumps data in
      case SharedMemory_create granule drawn shm_name (length data_bytes) w of
        Inl e \<Rightarrow> Inl e
      | Inr (nm, w1) \<Rightarrow>
          (case write_prefix nm data_bytes w1 of
             Inl e \<Rightarrow> Inl e
           | Inr w2 \<Rightarrow> Inr ((nm, nm), w2)))"

text \<open>
  \<open>deserialize_from_shared_memory(shm_name)\<close>: what it returns or raises, and the state it
  leaves. Attaching is before the \<open>try\<close>; \<open>close\<close> is in its \<open>finally\<close>.
\<close>

definition deserialize_from_shared_memory ::
  "(byte list \<Rightarrow> shm_error + 'a) \<Rightarrow> string \<Rightarrow> shm \<Rightarrow> (shm_error + 'a) \<times> shm" where
  "deserialize_from_shared_memory loads shm_name w =
     (case SharedMemory_attach shm_name w of
        Inl e \<Rightarrow> (Inl e, w)
      | Inr w1 \<Rightarrow>
          (let data_bytes = (case segments w1 shm_name of Some bs \<Rightarrow> bs | None \<Rightarrow> []);
               data = loads data_bytes;
               w2 = SharedMemory_close shm_name w1
           in (data, w2)))"

lemma allocated_ge: "0 < granule \<Longrightarrow> sz \<le> allocated granule sz"
proof -
  assume g: "0 < granule"
  have "sz + granule - 1 < ((sz + granule - 1) div granule) * granule + granule"
    using g by (metis add.commute div_mult_mod_eq mod_less_divisor add_less_cancel_left mult.commute)
  then show ?thesis using g by (simp add: allocated_def)
qed

lemma allocated_exact [simp]: "allocated 1 sz = sz"
  by (simp add: allocated_def)

text \<open>
  Claim C7. Let the name asked for be free, or some name drawn when none is asked for, let
  the serialization of the payload be not empty (a pickle never is), and let \<open>pickle.loads\<close>
  give back the payload from its serialization followed by the zero bytes that fill the
  block (\<open>pickle.loads\<close> stops at the end of the pickle; where the block has the size
  requested there are no such bytes). Then publishing succeeds under that name: it asks for
  exactly as many bytes as the serialization has, the segment it creates holds the
  serialization, followed by zero bytes up to the size of the block, and is exactly the
  serialization where the block has the size requested; nothing else changes but the
  caller's new attachment. And fetching by the returned name returns the payload and
  leaves the state as publishing left it.
\<close>

theorem shared_segment_round_trip:
  assumes "0 < granule" and "dumps data \<noteq> []"
    and "filter (\<lambda>c. segments w c = None)
           (case shm_name of Some nm \<Rightarrow> [nm] | None \<Rightarrow> drawn) = nm # rest"
    and "loads (dumps data @
           replicate (allocated granule (length (dumps data)) - length (dumps data)) 0) = Inr data"
  shows "\<exists>w1. serialize_to_shared_memory dumps granule drawn data shm_name w = Inr ((nm, nm), w1) \<and>
              SharedMemory_create granule drawn shm_name (length (dumps data)) w =
                Inr (nm, w\<lparr>segments :=
                              (segments w)(nm \<mapsto> replicate (allocated granule (length (dumps data))) 0),
                            attached := add_mset nm (attached w)\<rparr>) \<and>
              segments w1 =
                (segments w)(nm \<mapsto> dumps data @
                   replicate (allocated granule (length (dumps data)) - length (dumps data)) 0) \<and>
              (granule = 1 \<longrightarrow> segments w1 nm = Some (dumps data)) \<and>
              attached w1 = add_mset nm (attached w) \<and>
              deserialize_from_shared_memory loads nm w1 = (Inr data, w1)"
proof -
  let ?bs = "dumps data"
  let ?n = "allocated granule (length ?bs)"
  let ?w0 = "w\<lparr>segments := (segments w)(nm \<mapsto> replicate ?n 0),
               attached := add_mset nm (attached w)\<rparr>"
  let ?w1 = "?w0\<lparr>segments := (segments ?w0)(nm \<mapsto> ?bs @ drop (length ?bs) (replicate ?n 0))\<rparr>"
  have le: "length ?bs \<le> ?n" by (rule allocated_ge[OF assms(1)])
  have c: "SharedMemory_create granule drawn shm_name (length ?bs) w = Inr (nm, ?w0)"
    using assms(2,3) by (simp add: SharedMemory_create_def)
  have p: "write_prefix nm ?bs ?w0 = Inr ?w1"
    using le by (simp add: write_prefix_def)
  have s: "serialize_to_shared_memory dumps granule drawn data shm_name w = Inr ((nm, nm), ?w1)"
    by (simp only: serialize_to_shared_memory_def Let_def c p sum.case prod.case)
  have g: "segments ?w1 = (segments w)(nm \<mapsto> ?bs @ replicate (?n - length ?bs) 0)"
    by simp
  have a: "attached ?w1 = add_mset nm (attached w)" by simp
  have d: "deserialize_from_shared_memory loads nm ?w1 = (Inr data, ?w1)"
    using assms(4)
    by (simp add: deserialize_from_shared_memory_def SharedMemory_attach_def
        SharedMemory_close_def Let_def)
  have e: "granule = 1 \<longrightarrow> segments ?w1 nm = Some ?bs" by (auto simp: allocated_def)
  show ?thesis using s c g a d e by (intro exI[of _ ?w1] conjI)
qed

text \<open>
  A serialization of lists of small numbers, standing for \<open>pickle\<close> in the examples: two
  bytes of header, the numbers, and a byte that ends it, at which reading stops.
\<close>

definition toy_dumps :: "nat list \<Rightarrow> byte list" where
  "toy_dumps xs = [0x80, 4] @ map of_nat xs @ [0x2E]"

definition toy_loads :: "byte list \<Rightarrow> shm_error + nat list" where
  "toy_loads bs =
     (if take 2 bs = [0x80, 4] \<and> 0x2E \<in> set (drop 2 bs)
      then Inr (map unat (takeWhile (\<lambda>b. b \<noteq> 0x2E) (drop 2 bs)))
      else Inl UnpicklingError)"

definition no_segments :: shm where
  "no_segments = \<lparr>segments = Map.empty, attached = {#}\<rparr>"

theorem shared_segment_round_trip_witness:
  "serialize_to_shared_memory toy_dumps 8 [''psm_1''] [1, 2, 3] None no_segments =
     Inr ((''psm_1'', ''psm_1''),
          \<lparr>segments = [''psm_1'' \<mapsto> [0x80, 4, 1, 2, 3, 0x2E, 0, 0]], attached = {#''psm_1''#}\<rparr>) \<and>
   deserialize_from_shared_memory toy_loads ''psm_1''
       \<lparr>segments = [''psm_1'' \<mapsto> [0x80, 4, 1, 2, 3, 0x2E, 0, 0]], attached = {#''psm_1''#}\<rparr> =
     (Inr [1, 2, 3],
      \<lparr>segments = [''psm_1'' \<mapsto> [0x80, 4, 1, 2, 3, 0x2E, 0, 0]], attached = {#''psm_1''#}\<rparr>) \<and>
   serialize_to_shared_memory toy_dumps 1 [] [1, 2, 3] (Some ''job_7'') no_segments =
     Inr ((''job_7'', ''job_7''),
          \<lparr>segments = [''job_7'' \<mapsto> [0x80, 4, 1, 2, 3, 0x2E]], attached = {#''job_7''#}\<rparr>)"
proof -
  have n: "toy_dumps [1, 2, 3] \<noteq> []" by (simp add: toy_dumps_def)
  have f: "filter (\<lambda>c. segments no_segments c = None)
        (case None of Some nm \<Rightarrow> [nm] | None \<Rightarrow> [''psm_1'']) = ''psm_1'' # []"
    by (simp add: no_segments_def)
  have l: "toy_loads (toy_dumps [1, 2, 3] @
      replicate (allocated 8 (length (toy_dumps [1, 2, 3])) - length (toy_dumps [1, 2, 3])) 0) =
      Inr [1, 2, 3]"
    by (simp add: toy_loads_def toy_dumps_def allocated_def)
  obtain w1 where
    s: "serialize_to_shared_memory toy_dumps 8 [''psm_1''] [1, 2, 3] None no_segments =
          Inr ((''psm_1'', ''psm_1''), w1)"
    and d: "deserialize_from_shared_memory toy_loads ''psm_1'' w1 = (Inr [1, 2, 3], w1)"
    using shared_segment_round_trip[where loads = toy_loads and dumps = toy_dumps
        and data = "[1, 2, 3]" and w = no_segments and shm_name = None and granule = 8
        and drawn = "[''psm_1'']" and nm = "''psm_1''" and rest = "[]", OF _ n f l]
    by auto
  have e: "serialize_to_shared_memory toy_dumps 8 [''psm_1''] [1, 2, 3] None no_segments =
     Inr ((''psm_1'', ''psm_1''),
          \<lparr>segments = [''psm_1'' \<mapsto> [0x80, 4, 1, 2, 3, 0x2E, 0, 0]], attached = {#''psm_1''#}\<rparr>)"
    by (simp add: serialize_to_shared_memory_def SharedMemory_create_def write_prefix_def
        toy_dumps_def no_segments_def allocated_def numeral_2_eq_2)
  have "serialize_to_shared_memory toy_dumps 1 [] [1, 2, 3] (Some ''job_7'') no_segments =
     Inr ((''job_7'', ''job_7''),
          \<lparr>segments = [''job_7'' \<mapsto> [0x80, 4, 1, 2, 3, 0x2E]], attached = {#''job_7''#}\<rparr>)"
    by (simp add: serialize_to_shared_memory_def SharedMemory_create_def write_prefix_def
        toy_dumps_def no_segments_def allocated_def)
  then show ?thesis using s d e by simp
qed

text \<open>
  Claim C8. Whatever \<open>pickle.loads\<close> does with the bytes, return a value or raise,
  \<open>deserialize_from_shared_memory\<close> leaves the caller with the attachments it had before
  the call and the segments as they were: the attachment it made is closed. On a name that
  has no segment, never created or destroyed by \<open>unlink\<close>, it raises \<open>FileNotFoundError\<close>,
  without calling \<open>pickle.loads\<close> on anything.
\<close>

theorem fetch_detaches:
  "snd (deserialize_from_shared_memory loads nm w) = w \<and>
   (segments w nm = None \<longrightarrow>
      deserialize_from_shared_memory loads nm w = (Inl FileNotFoundError, w)) \<and>
   deserialize_from_shared_memory loads nm (SharedMemory_unlink nm w) =
     (Inl FileNotFoundError, SharedMemory_unlink nm w) \<and>
   (\<forall>bs. segments w nm = Some bs \<longrightarrow> fst (deserialize_from_shared_memory loads nm w) = loads bs)"
  by (cases "segments w nm")
    (simp_all add: deserialize_from_shared_memory_def SharedMemory_attach_def
      SharedMemory_close_def SharedMemory_unlink_def Let_def)

theorem fetch_detaches_witness:
  "segments no_segments ''gone'' = None \<and>
   deserialize_from_shared_memory toy_loads ''gone'' no_segments =
     (Inl FileNotFoundError, no_segments) \<and>
   segments \<lparr>segments = [''bad'' \<mapsto> [0, 0, 0]], attached = {#}\<rparr> ''bad'' = Some [0, 0, 0] \<and>
   deserialize_from_shared_memory toy_loads ''bad''
       \<lparr>segments = [''bad'' \<mapsto> [0, 0, 0]], attached = {#}\<rparr> =
     (Inl UnpicklingError, \<lparr>segments = [''bad'' \<mapsto> [0, 0, 0]], attached = {#}\<rparr>)"
proof -
  have a: "segments no_segments ''gone'' = None" by (simp add: no_segments_def)
  have b: "segments \<lparr>segments = [''bad'' \<mapsto> [0, 0, 0]], attached = {#}\<rparr> ''bad'' = Some [0, 0, 0]"
    by simp
  have "deserialize_from_shared_memory toy_loads ''gone'' no_segments =
     (Inl FileNotFoundError, no_segments)"
    using fetch_detaches[of toy_loads "''gone''" no_segments] a by blast
  moreover have "deserialize_from_shared_memory toy_loads ''bad''
       \<lparr>segments = [''bad'' \<mapsto> [0, 0, 0]], attached = {#}\<rparr> =
     (toy_loads [0, 0, 0], \<lparr>segments = [''bad'' \<mapsto> [0, 0, 0]], attached = {#}\<rparr>)"
    using fetch_detaches[of toy_loads "''bad''"
        "\<lparr>segments = [''bad'' \<mapsto> [0, 0, 0]], attached = {#}\<rparr>"] b
    by (metis prod.collapse)
  ultimately show ?thesis using a b by (simp add: toy_loads_def)
qed

end
